theory Spec2Isabelle
  imports Complex_Main "HOL-Library.Log_Nat"
begin

section \<open>Python values used by the program\<close>

text \<open>
  Python integers are unbounded and are modelled by \<open>int\<close>.  Indexing a list raises
  \<open>IndexError\<close> outside \<open>-len .. len - 1\<close> and counts from the end for a negative
  index; the exception is a value of the result type.
\<close>

datatype py_error = IndexError

definition getitem :: "'a list \<Rightarrow> int \<Rightarrow> py_error + 'a" where
  "getitem xs i =
     (if 0 \<le> i \<and> i < int (length xs) then Inr (xs ! nat i)
      else if i < 0 \<and> - int (length xs) \<le> i then Inr (xs ! nat (int (length xs) + i))
      else Inl IndexError)"

text \<open>\<open>str\<close> of an integer, as an f-string field renders it.\<close>

definition digit_char :: "nat \<Rightarrow> char" where
  "digit_char d = char_of (48 + d)"

fun str_nat :: "nat \<Rightarrow> string" where
  "str_nat n = (if n < 10 then [digit_char n] else str_nat (n div 10) @ [digit_char (n mod 10)])"

definition str_int :: "int \<Rightarrow> string" where
  "str_int i = (if i < 0 then ''-'' @ str_nat (nat (- i)) else str_nat (nat i))"

text \<open>An optional integer in an f-string field: \<open>None\<close> prints as the word.\<close>

definition str_opt :: "int option \<Rightarrow> string" where
  "str_opt v = (case v of None \<Rightarrow> ''None'' | Some i \<Rightarrow> str_int i)"

section \<open>BinarySearchAlgorithm\<close>

text \<open>
  A step is the dictionary that \<open>execute\<close> appends to \<open>self.steps\<close>.  Every dictionary
  the program builds has the same six keys, so it is a record; \<open>None\<close> is \<open>None\<close>.
\<close>

record step =
  left :: "int option"
  right :: "int option"
  mid :: "int option"
  comparison :: "string option"
  message :: string
  status :: string

record BinarySearchAlgorithm =
  array :: "int list"
  target :: int
  steps :: "step list"
  comparisons :: int
  found :: bool
  found_index :: int

text \<open>\<open>__init__\<close>\<close>

definition init :: "int list \<Rightarrow> int \<Rightarrow> BinarySearchAlgorithm" where
  "init a t =
     \<lparr>array = a, target = t, steps = [], comparisons = 0, found = False, found_index = - 1\<rparr>"

text \<open>The four f-strings of \<open>execute\<close>.\<close>

definition msg_start :: "int \<Rightarrow> int \<Rightarrow> string" where
  "msg_start t n = ''Starting search for '' @ str_int t @ '' in array of size '' @ str_int n"

definition msg_found :: "int \<Rightarrow> int \<Rightarrow> int \<Rightarrow> int \<Rightarrow> string" where
  "msg_found c m v t =
     ''Step '' @ str_int c @ '': Found! Array['' @ str_int m @ ''] = '' @ str_int v
       @ '' equals target '' @ str_int t"

definition msg_less :: "int \<Rightarrow> int \<Rightarrow> int \<Rightarrow> int \<Rightarrow> string" where
  "msg_less c m v t =
     ''Step '' @ str_int c @ '': Array['' @ str_int m @ ''] = '' @ str_int v
       @ '' < '' @ str_int t @ ''. Searching right half.''"

definition msg_greater :: "int \<Rightarrow> int \<Rightarrow> int \<Rightarrow> int \<Rightarrow> string" where
  "msg_greater c m v t =
     ''Step '' @ str_int c @ '': Array['' @ str_int m @ ''] = '' @ str_int v
       @ '' > '' @ str_int t @ ''. Searching left half.''"

definition msg_not_found :: "int \<Rightarrow> int \<Rightarrow> string" where
  "msg_not_found t c =
     ''Search complete: '' @ str_int t @ '' not found in array after '' @ str_int c
       @ '' comparisons''"

text \<open>
  The \<open>while left <= right\<close> loop of \<open>execute\<close>.  Its state is the object and the two
  local bounds; it returns them as they are when the loop is left (by the condition
  or by \<open>break\<close>), or the exception raised by \<open>self.array[mid]\<close>.
\<close>

function search_loop ::
  "BinarySearchAlgorithm \<Rightarrow> int \<Rightarrow> int \<Rightarrow> py_error + (BinarySearchAlgorithm \<times> int \<times> int)"
where
  "search_loop self l r =
     (if l \<le> r then
        (case getitem (array self) ((l + r) div 2) of
           Inl e \<Rightarrow> Inl e
         | Inr mid_value \<Rightarrow>
             (if mid_value = target self then
                Inr (self\<lparr>comparisons := comparisons self + 1,
                          found := True,
                          found_index := (l + r) div 2,
                          steps := steps self @
                            [\<lparr>left = Some l, right = Some r, mid = Some ((l + r) div 2),
                              comparison = Some ''equal'',
                              message = msg_found (comparisons self + 1) ((l + r) div 2)
                                          mid_value (target self),
                              status = ''found''\<rparr>]\<rparr>, l, r)
              else if mid_value < target self then
                search_loop
                  (self\<lparr>comparisons := comparisons self + 1,
                        steps := steps self @
                          [\<lparr>left = Some l, right = Some r, mid = Some ((l + r) div 2),
                            comparison = Some ''less'',
                            message = msg_less (comparisons self + 1) ((l + r) div 2)
                                        mid_value (target self),
                            status = ''searching''\<rparr>]\<rparr>)
                  ((l + r) div 2 + 1) r
              else
                search_loop
                  (self\<lparr>comparisons := comparisons self + 1,
                        steps := steps self @
                          [\<lparr>left = Some l, right = Some r, mid = Some ((l + r) div 2),
                            comparison = Some ''greater'',
                            message = msg_greater (comparisons self + 1) ((l + r) div 2)
                                        mid_value (target self),
                            status = ''searching''\<rparr>]\<rparr>)
                  l ((l + r) div 2 - 1)))
      else Inr (self, l, r))"
  by pat_completeness auto
termination
  by (relation "measure (\<lambda>(self, l, r). nat (r - l + 1))") auto

declare search_loop.simps [simp del]

text \<open>
  \<open>execute\<close>: the initial step, the loop, and the closing step when nothing was found.
  The method returns \<open>self.steps\<close>; the model returns the object after the call, whose
  \<open>steps\<close> field is that list.
\<close>

definition execute :: "BinarySearchAlgorithm \<Rightarrow> py_error + BinarySearchAlgorithm" where
  "execute self =
     (let l = 0;
          r = int (length (array self)) - 1;
          self0 = self\<lparr>steps := steps self @
                    [\<lparr>left = Some l, right = Some r, mid = None, comparison = None,
                      message = msg_start (target self) (int (length (array self))),
                      status = ''searching''\<rparr>]\<rparr>
      in case search_loop self0 l r of
           Inl e \<Rightarrow> Inl e
         | Inr (self1, l1, r1) \<Rightarrow>
             (if \<not> found self1 then
                Inr (self1\<lparr>steps := steps self1 @
                       [\<lparr>left = Some l1, right = Some r1, mid = None, comparison = None,
                         message = msg_not_found (target self1) (comparisons self1),
                         status = ''not_found''\<rparr>]\<rparr>)
              else Inr self1))"

section \<open>BinarySearchVisualizer\<close>

text \<open>The \<open>colors\<close> dictionary of the visualizer; a missing key is \<open>None\<close>.\<close>

definition colors :: "string \<rightharpoonup> string" where
  "colors =
     [''default'' \<mapsto> ''#1f3a93'', ''eliminated'' \<mapsto> ''#d3d3d3'',
      ''current'' \<mapsto> ''#ffd700'', ''found'' \<mapsto> ''#32cd32'']"

text \<open>
  The colour selection of \<open>create_bar_chart\<close>: the list \<open>colors\<close> that the loop over
  \<open>range(len(array))\<close> builds, one entry per bar; \<open>bar_color\<close> is the body of that
  loop for one \<open>i\<close>.  Drawing the figure from the list is left to Matplotlib and is not
  modelled.
\<close>

definition bar_color :: "step \<Rightarrow> int \<Rightarrow> string option" where
  "bar_color step_data i =
     (if status step_data = ''found'' \<and> Some i = mid step_data then colors ''found''
      else if mid step_data \<noteq> None \<and> Some i = mid step_data then colors ''current''
      else (case (left step_data, right step_data) of
              (Some l, Some r) \<Rightarrow>
                (if i < l \<or> i > r then colors ''eliminated'' else colors ''default'')
            | _ \<Rightarrow> colors ''default''))"

definition create_bar_chart :: "int list \<Rightarrow> step \<Rightarrow> string option list" where
  "create_bar_chart arr step_data = map (\<lambda>i. bar_color step_data (int i)) [0..<length arr]"

section \<open>BinarySearchApp\<close>

record BinarySearchApp =
  current_array :: "int list"
  current_target :: "int option"
  algorithm :: "BinarySearchAlgorithm option"
  current_step :: int
  all_steps :: "step list"
  is_playing :: bool

text \<open>
  What a handler hands to the interface: the chart (\<open>None\<close> when there is none), the
  statistics text, the log text and the step counter.
\<close>

type_synonym display = "string option list option \<times> string \<times> string \<times> string"

definition stats_text :: "int \<Rightarrow> int option \<Rightarrow> int option \<Rightarrow> int \<Rightarrow> string" where
  "stats_text c l r n =
     ''**Statistics:**\<newline>- Comparisons so far: '' @ str_int c
       @ ''\<newline>- Current search range: ['' @ str_opt l @ '', '' @ str_opt r
       @ '']\<newline>- Time Complexity: O(log n)\<newline>- Array size (n): '' @ str_int n
       @ ''\<newline>''"

definition step_info_text :: "int \<Rightarrow> int \<Rightarrow> string" where
  "step_info_text c n = ''Step '' @ str_int c @ '' of '' @ str_int n"

text \<open>The loop \<open>for i in range(self.current_step + 1)\<close> that collects the messages.\<close>

fun log_lines :: "step list \<Rightarrow> nat list \<Rightarrow> py_error + string list" where
  "log_lines ss [] = Inr []"
| "log_lines ss (i # is) =
     (case getitem ss (int i) of
        Inl e \<Rightarrow> Inl e
      | Inr s \<Rightarrow> (case log_lines ss is of Inl e \<Rightarrow> Inl e | Inr ms \<Rightarrow> Inr (message s # ms)))"

fun join :: "string \<Rightarrow> string list \<Rightarrow> string" where
  "join sep [] = []"
| "join sep [x] = x"
| "join sep (x # y # ys) = x @ sep @ join sep (y # ys)"

definition display_current_step :: "BinarySearchApp \<Rightarrow> py_error + display" where
  "display_current_step self =
     (if all_steps self = [] then Inr (None, ''No search initialized'', [], ''Step 0 of 0'')
      else
        (case getitem (all_steps self) (current_step self) of
           Inl e \<Rightarrow> Inl e
         | Inr step_data \<Rightarrow>
             (case log_lines (all_steps self) [0..<nat (current_step self + 1)] of
                Inl e \<Rightarrow> Inl e
              | Inr ls \<Rightarrow>
                  Inr (Some (create_bar_chart (current_array self) step_data),
                       stats_text (current_step self) (left step_data) (right step_data)
                         (int (length (current_array self))),
                       join ''\<newline>'' ls,
                       step_info_text (current_step self + 1)
                         (int (length (all_steps self)))))))"

text \<open>
  The handlers change the object and then return what \<open>display_current_step\<close> returns,
  so each is modelled by the object after the call together with that result.
\<close>

definition next_step :: "BinarySearchApp \<Rightarrow> BinarySearchApp \<times> (py_error + display)" where
  "next_step self =
     (let self' =
        (if current_step self < int (length (all_steps self)) - 1
         then self\<lparr>current_step := current_step self + 1\<rparr>
         else self\<lparr>is_playing := False\<rparr>)
      in (self', display_current_step self'))"

definition previous_step :: "BinarySearchApp \<Rightarrow> BinarySearchApp \<times> (py_error + display)" where
  "previous_step self =
     (let self' =
        (if current_step self > 0 then self\<lparr>current_step := current_step self - 1\<rparr>
         else self)
      in (self', display_current_step self'))"

definition reset_search :: "BinarySearchApp \<Rightarrow> BinarySearchApp \<times> (py_error + display)" where
  "reset_search self =
     (let self' = self\<lparr>current_step := 0\<rparr>
      in if all_steps self' \<noteq> [] then (self', display_current_step self')
         else (self', Inr (None, ''No search to reset'', [], ''Step 0 of 0'')))"

definition toggle_auto_play :: "BinarySearchApp \<Rightarrow> BinarySearchApp \<times> string" where
  "toggle_auto_play self =
     (let self' = self\<lparr>is_playing := \<not> is_playing self\<rparr>
      in (self', if is_playing self' then ''Stop Auto-Play'' else ''Start Auto-Play''))"

section \<open>Properties of steps\<close>

text \<open>
  A comparison step is within bounds when its three indices are set, \<open>mid\<close> is the
  floor of the mean of \<open>left\<close> and \<open>right\<close>, and
  \<open>0 \<le> left \<le> mid \<le> right \<le> len(array) - 1\<close>.
\<close>

definition in_bounds :: "int list \<Rightarrow> step \<Rightarrow> bool" where
  "in_bounds a s =
     (case (left s, right s, mid s) of
        (Some l, Some r, Some m) \<Rightarrow>
          0 \<le> l \<and> l \<le> m \<and> m \<le> r \<and> r \<le> int (length a) - 1 \<and> m = (l + r) div 2
      | _ \<Rightarrow> False)"

text \<open>The steps that a run of the loop has appended to \<open>self.steps\<close>.\<close>

abbreviation new_steps :: "BinarySearchAlgorithm \<Rightarrow> BinarySearchAlgorithm \<Rightarrow> step list" where
  "new_steps self self' \<equiv> drop (length (steps self)) (steps self')"

text \<open>
  The number of comparisons recorded in the steps \<open>0 .. c\<close> of a trace: the steps
  among them that carry a comparison outcome.
\<close>

definition recorded_comparisons :: "step list \<Rightarrow> int \<Rightarrow> nat" where
  "recorded_comparisons ss c =
     length (filter (\<lambda>s. comparison s \<noteq> None) (take (nat (c + 1)) ss))"

text \<open>A session has a bound trace when the trace is not empty and the cursor is in it.\<close>

definition bound_trace :: "BinarySearchApp \<Rightarrow> bool" where
  "bound_trace self =
     (all_steps self \<noteq> [] \<and> 0 \<le> current_step self \<and>
      current_step self < int (length (all_steps self)))"

section \<open>The search loop\<close>

lemma getitem_in_range:
  "0 \<le> i \<Longrightarrow> i < int (length xs) \<Longrightarrow> getitem xs i = Inr (xs ! nat i)"
  by (simp add: getitem_def Let_def)

lemma getitem_Inr_nonneg:
  "0 \<le> i \<Longrightarrow> getitem xs i = Inr v \<Longrightarrow> i < int (length xs) \<and> v = xs ! nat i"
  by (simp add: getitem_def Let_def split: if_splits)

lemma search_loop_result_induct [consumes 1, case_names exit found less greater]:
  assumes run: "search_loop self l r = Inr res"
    and exit: "\<And>self l r. \<not> l \<le> r \<Longrightarrow> P self l r (self, l, r)"
    and found: "\<And>self l r v self1 s.
        l \<le> r \<Longrightarrow> getitem (array self) ((l + r) div 2) = Inr v \<Longrightarrow> v = target self \<Longrightarrow>
        array self1 = array self \<Longrightarrow> target self1 = target self \<Longrightarrow>
        comparisons self1 = comparisons self + 1 \<Longrightarrow> found self1 \<Longrightarrow>
        found_index self1 = (l + r) div 2 \<Longrightarrow> steps self1 = steps self @ [s] \<Longrightarrow>
        left s = Some l \<Longrightarrow> right s = Some r \<Longrightarrow> mid s = Some ((l + r) div 2) \<Longrightarrow>
        comparison s = Some ''equal'' \<Longrightarrow> status s = ''found'' \<Longrightarrow>
        P self l r (self1, l, r)"
    and less: "\<And>self l r v self1 s res.
        l \<le> r \<Longrightarrow> getitem (array self) ((l + r) div 2) = Inr v \<Longrightarrow> v < target self \<Longrightarrow>
        array self1 = array self \<Longrightarrow> target self1 = target self \<Longrightarrow>
        comparisons self1 = comparisons self + 1 \<Longrightarrow> found self1 = found self \<Longrightarrow>
        found_index self1 = found_index self \<Longrightarrow> steps self1 = steps self @ [s] \<Longrightarrow>
        left s = Some l \<Longrightarrow> right s = Some r \<Longrightarrow> mid s = Some ((l + r) div 2) \<Longrightarrow>
        comparison s = Some ''less'' \<Longrightarrow> status s = ''searching'' \<Longrightarrow>
        search_loop self1 ((l + r) div 2 + 1) r = Inr res \<Longrightarrow>
        P self1 ((l + r) div 2 + 1) r res \<Longrightarrow> P self l r res"
    and greater: "\<And>self l r v self1 s res.
        l \<le> r \<Longrightarrow> getitem (array self) ((l + r) div 2) = Inr v \<Longrightarrow> target self < v \<Longrightarrow>
        array self1 = array self \<Longrightarrow> target self1 = target self \<Longrightarrow>
        comparisons self1 = comparisons self + 1 \<Longrightarrow> found self1 = found self \<Longrightarrow>
        found_index self1 = found_index self \<Longrightarrow> steps self1 = steps self @ [s] \<Longrightarrow>
        left s = Some l \<Longrightarrow> right s = Some r \<Longrightarrow> mid s = Some ((l + r) div 2) \<Longrightarrow>
        comparison s = Some ''greater'' \<Longrightarrow> status s = ''searching'' \<Longrightarrow>
        search_loop self1 l ((l + r) div 2 - 1) = Inr res \<Longrightarrow>
        P self1 l ((l + r) div 2 - 1) res \<Longrightarrow> P self l r res"
  shows "P self l r res"
  using run
proof (induction self l r rule: search_loop.induct)
  case (1 self l r)
  let ?m = "(l + r) div 2"
  note unfold = search_loop.simps [of self l r]
  show ?case
  proof (cases "l \<le> r")
    case False
    with "1.prems" have "res = (self, l, r)"
      by (simp add: unfold)
    with False exit show ?thesis by simp
  next
    case True
    from True "1.prems" obtain v where v: "getitem (array self) ?m = Inr v"
      by (auto simp: unfold split: sum.splits)
    consider (eq) "v = target self" | (lt) "v < target self" | (gt) "target self < v"
      by linarith
    then show ?thesis
    proof cases
      case eq
      let ?s = "\<lparr>left = Some l, right = Some r, mid = Some ?m, comparison = Some ''equal'',
                 message = msg_found (comparisons self + 1) ?m v (target self),
                 status = ''found''\<rparr>"
      let ?self1 = "self\<lparr>comparisons := comparisons self + 1, found := True,
                         found_index := ?m, steps := steps self @ [?s]\<rparr>"
      from True v eq "1.prems" have res: "res = (?self1, l, r)"
        by (simp add: unfold)
      have "P self l r (?self1, l, r)"
        by (rule found [OF True v eq, where s = ?s]) simp_all
      with res show ?thesis by simp
    next
      case lt
      let ?s = "\<lparr>left = Some l, right = Some r, mid = Some ?m, comparison = Some ''less'',
                 message = msg_less (comparisons self + 1) ?m v (target self),
                 status = ''searching''\<rparr>"
      let ?self1 = "self\<lparr>comparisons := comparisons self + 1, steps := steps self @ [?s]\<rparr>"
      from lt have neq: "v \<noteq> target self" by simp
      from True v neq lt "1.prems" have rec: "search_loop ?self1 (?m + 1) r = Inr res"
        by (simp add: unfold)
      have ih: "P ?self1 (?m + 1) r res"
        by (rule "1.IH"(1) [OF True v neq lt rec])
      show ?thesis
        by (rule less [OF True v lt _ _ _ _ _ _ _ _ _ _ _ rec ih, where s = ?s]) simp_all
    next
      case gt
      let ?s = "\<lparr>left = Some l, right = Some r, mid = Some ?m, comparison = Some ''greater'',
                 message = msg_greater (comparisons self + 1) ?m v (target self),
                 status = ''searching''\<rparr>"
      let ?self1 = "self\<lparr>comparisons := comparisons self + 1, steps := steps self @ [?s]\<rparr>"
      from gt have neq: "v \<noteq> target self" and nlt: "\<not> v < target self" by simp_all
      from True v neq nlt "1.prems" have rec: "search_loop ?self1 l (?m - 1) = Inr res"
        by (simp add: unfold)
      have ih: "P ?self1 l (?m - 1) res"
        by (rule "1.IH"(2) [OF True v neq nlt rec])
      show ?thesis
        by (rule greater [OF True v gt _ _ _ _ _ _ _ _ _ _ _ rec ih, where s = ?s]) simp_all
    qed
  qed
qed

lemma search_loop_total:
  "0 \<le> l \<Longrightarrow> r < int (length (array self)) \<Longrightarrow> \<exists>res. search_loop self l r = Inr res"
proof (induction self l r rule: search_loop.induct)
  case (1 self l r)
  let ?m = "(l + r) div 2"
  show ?case
  proof (cases "l \<le> r")
    case False
    then show ?thesis by (simp add: search_loop.simps [of self l r])
  next
    case True
    with "1.prems" have m: "0 \<le> ?m" "?m < int (length (array self))" "l \<le> ?m" "?m \<le> r"
      by simp_all
    then have v: "getitem (array self) ?m = Inr (array self ! nat ?m)"
      by (simp add: getitem_in_range)
    show ?thesis
      using True v m "1.prems" "1.IH"(1) [OF True v] "1.IH"(2) [OF True v]
      by (simp add: search_loop.simps [of self l r])
  qed
qed

lemma search_loop_frame:
  assumes "search_loop self l r = Inr res"
  shows "array (fst res) = array self \<and> target (fst res) = target self"
  using assms by (induction rule: search_loop_result_induct) simp_all

lemma search_loop_prefix:
  assumes "search_loop self l r = Inr res"
  shows "\<exists>new. steps (fst res) = steps self @ new"
  using assms by (induction rule: search_loop_result_induct) auto

lemma search_loop_comparisons:
  assumes "search_loop self l r = Inr res"
  shows "comparisons (fst res) = comparisons self + (int (length (steps (fst res))) - int (length (steps self)))"
  using assms by (induction rule: search_loop_result_induct) simp_all

lemma search_loop_length_bound:
  assumes "search_loop self l r = Inr res"
  shows "r - l + 1 < 2 ^ k \<Longrightarrow> length (steps (fst res)) \<le> length (steps self) + k"
  using assms
proof (induction arbitrary: k rule: search_loop_result_induct)
  case (exit self l r)
  then show ?case by simp
next
  case (found self l r v self1 s)
  from found.hyps(1) found.prems have "k \<noteq> 0" by (cases k) auto 
  with found show ?case by simp
next
  case (less self l r v self1 s res)
  from less.hyps(1) less.prems obtain j where k: "k = Suc j" by (cases k) auto
  from less.hyps(1) less.prems have "r - ((l + r) div 2 + 1) + 1 < 2 ^ j"
    unfolding k by simp
  from less.IH [OF this] less.hyps show ?case by (simp add: k)
next
  case (greater self l r v self1 s res)
  from greater.hyps(1) greater.prems obtain j where k: "k = Suc j" by (cases k) auto
  from greater.hyps(1) greater.prems have "(l + r) div 2 - 1 - l + 1 < 2 ^ j"
    unfolding k by simp
  from greater.IH [OF this] greater.hyps show ?case by (simp add: k)
qed

lemma search_loop_steps:
  assumes "search_loop self l r = Inr res"
  shows "steps (fst res) = steps self @ new_steps self (fst res)"
  using search_loop_prefix [OF assms] by auto

lemma new_steps_Cons:
  assumes "steps self1 = steps self @ [s]" and "search_loop self1 l r = Inr res"
  shows "new_steps self (fst res) = s # new_steps self1 (fst res)"
  using search_loop_prefix [OF assms(2)] assms(1) by auto

lemma search_loop_in_bounds:
  assumes "search_loop self l r = Inr res"
  shows "0 \<le> l \<Longrightarrow> r < int (length (array self)) \<Longrightarrow>
         \<forall>s \<in> set (new_steps self (fst res)). in_bounds (array self) s \<and> comparison s \<noteq> None"
  using assms
proof (induction rule: search_loop_result_induct)
  case (exit self l r)
  then show ?case by simp
next
  case (found self l r v self1 s)
  then show ?case by (auto simp: in_bounds_def)
next
  case (less self l r v self1 s res)
  have new: "new_steps self (fst res) = s # new_steps self1 (fst res)"
    using less.hyps by (intro new_steps_Cons)
  from less.hyps less.prems have "in_bounds (array self) s \<and> comparison s \<noteq> None"
    by (auto simp: in_bounds_def)
  moreover from less.hyps less.prems
  have "\<forall>s \<in> set (new_steps self1 (fst res)). in_bounds (array self) s \<and> comparison s \<noteq> None"
    using less.IH by simp
  ultimately show ?case
    unfolding new by simp
next
  case (greater self l r v self1 s res)
  have new: "new_steps self (fst res) = s # new_steps self1 (fst res)"
    using greater.hyps by (intro new_steps_Cons)
  from greater.hyps greater.prems have "in_bounds (array self) s \<and> comparison s \<noteq> None"
    by (auto simp: in_bounds_def)
  moreover from greater.hyps greater.prems
  have "\<forall>s \<in> set (new_steps self1 (fst res)). in_bounds (array self) s \<and> comparison s \<noteq> None"
    using greater.IH by simp
  ultimately show ?case
    unfolding new by simp
qed

lemma search_loop_butlast:
  assumes "search_loop self l r = Inr res"
  shows "\<forall>s \<in> set (butlast (new_steps self (fst res))).
           status s = ''searching'' \<and> comparison s \<noteq> Some ''equal''"
  using assms
proof (induction rule: search_loop_result_induct)
  case (exit self l r)
  then show ?case by simp
next
  case (found self l r v self1 s)
  then show ?case by simp
next
  case (less self l r v self1 s res)
  have new: "new_steps self (fst res) = s # new_steps self1 (fst res)"
    using less.hyps by (intro new_steps_Cons)
  from less.hyps less.IH show ?case
    unfolding new by simp
next
  case (greater self l r v self1 s res)
  have new: "new_steps self (fst res) = s # new_steps self1 (fst res)"
    using greater.hyps by (intro new_steps_Cons)
  from greater.hyps greater.IH show ?case
    unfolding new by simp
qed

lemma search_loop_found:
  assumes "search_loop self l r = Inr res"
  shows "\<not> found self \<Longrightarrow> found (fst res) \<Longrightarrow>
         length (steps self) < length (steps (fst res)) \<and>
         status (last (steps (fst res))) = ''found'' \<and>
         comparison (last (steps (fst res))) = Some ''equal'' \<and>
         mid (last (steps (fst res))) = Some (found_index (fst res))"
  using assms by (induction rule: search_loop_result_induct) simp_all

lemma search_loop_not_found:
  assumes "search_loop self l r = Inr res"
  shows "\<not> found (fst res) \<Longrightarrow>
         \<forall>s \<in> set (new_steps self (fst res)).
           status s = ''searching'' \<and> comparison s \<noteq> Some ''equal''"
  using assms
proof (induction rule: search_loop_result_induct)
  case (exit self l r)
  then show ?case by simp
next
  case (found self l r v self1 s)
  then show ?case by simp
next
  case (less self l r v self1 s res)
  have new: "new_steps self (fst res) = s # new_steps self1 (fst res)"
    using less.hyps by (intro new_steps_Cons)
  from less.hyps less.prems less.IH show ?case
    unfolding new by simp
next
  case (greater self l r v self1 s res)
  have new: "new_steps self (fst res) = s # new_steps self1 (fst res)"
    using greater.hyps by (intro new_steps_Cons)
  from greater.hyps greater.prems greater.IH show ?case
    unfolding new by simp
qed

lemma search_loop_found_index:
  assumes "search_loop self l r = Inr res"
  shows "0 \<le> l \<Longrightarrow> \<not> found self \<Longrightarrow> found (fst res) \<Longrightarrow>
         0 \<le> found_index (fst res) \<and> found_index (fst res) < int (length (array self)) \<and>
         array self ! nat (found_index (fst res)) = target self"
  using assms
proof (induction rule: search_loop_result_induct)
  case (exit self l r)
  then show ?case by simp
next
  case (found self l r v self1 s)
  from found.hyps(1) found.prems(1) have "0 \<le> (l + r) div 2" by simp
  from getitem_Inr_nonneg [OF this found.hyps(2)] this found.hyps show ?case by simp
next
  case (less self l r v self1 s res)
  then show ?case by simp
next
  case (greater self l r v self1 s res)
  then show ?case by simp
qed

lemma search_loop_absent:
  assumes "search_loop self l r = Inr res"
  shows "0 \<le> l \<Longrightarrow> target self \<notin> set (array self) \<Longrightarrow> found (fst res) = found self"
  using assms
proof (induction rule: search_loop_result_induct)
  case (exit self l r)
  then show ?case by simp
next
  case (found self l r v self1 s)
  from found.hyps(1) found.prems(1) have "0 \<le> (l + r) div 2" by simp
  from getitem_Inr_nonneg [OF this found.hyps(2)] found.hyps(3) found.prems(2)
  show ?case by (metis nat_less_iff nth_mem \<open>0 \<le> (l + r) div 2\<close>)
next
  case (less self l r v self1 s res)
  then show ?case by simp
next
  case (greater self l r v self1 s res)
  then show ?case by simp
qed

lemma search_loop_present:
  assumes "search_loop self l r = Inr res"
  shows "sorted (array self) \<Longrightarrow> 0 \<le> l \<Longrightarrow> r < int (length (array self)) \<Longrightarrow>
         \<exists>i. l \<le> i \<and> i \<le> r \<and> array self ! nat i = target self \<Longrightarrow> found (fst res)"
  using assms
proof (induction rule: search_loop_result_induct)
  case (exit self l r)
  then show ?case by auto
next
  case (found self l r v self1 s)
  then show ?case by simp
next
  case (less self l r v self1 s res)
  let ?m = "(l + r) div 2"
  from less.hyps(1) less.prems(2) have m0: "0 \<le> ?m" by simp
  from getitem_Inr_nonneg [OF m0 less.hyps(2)]
  have v: "v = array self ! nat ?m" and mn: "?m < int (length (array self))" by simp_all
  from less.prems(4) obtain i where i: "l \<le> i" "i \<le> r" "array self ! nat i = target self"
    by blast
  have "?m < i"
  proof (rule ccontr)
    assume "\<not> ?m < i"
    with i(1) less.prems(2) mn have "nat i \<le> nat ?m" "nat ?m < length (array self)"
      by simp_all
    with less.prems(1) have "array self ! nat i \<le> array self ! nat ?m"
      by (simp add: sorted_nth_mono)
    with i(3) v less.hyps(3) show False by simp
  qed
  with i have "\<exists>i. ?m + 1 \<le> i \<and> i \<le> r \<and> array self1 ! nat i = target self1"
    using less.hyps(4,5) by (intro exI [of _ i]) simp
  with less.IH less.hyps(4) less.prems m0 show ?case by simp
next
  case (greater self l r v self1 s res)
  let ?m = "(l + r) div 2"
  from greater.hyps(1) greater.prems(2) have m0: "0 \<le> ?m" by simp
  from getitem_Inr_nonneg [OF m0 greater.hyps(2)]
  have v: "v = array self ! nat ?m" and mn: "?m < int (length (array self))" by simp_all
  from greater.prems(4) obtain i where i: "l \<le> i" "i \<le> r" "array self ! nat i = target self"
    by blast
  have "i < ?m"
  proof (rule ccontr)
    assume "\<not> i < ?m"
    with i(2) m0 greater.prems(3) have "nat ?m \<le> nat i" "nat i < length (array self)"
      by simp_all
    with greater.prems(1) have "array self ! nat ?m \<le> array self ! nat i"
      by (simp add: sorted_nth_mono)
    with i(3) v greater.hyps(3) show False by simp
  qed
  with i have "\<exists>i. l \<le> i \<and> i \<le> ?m - 1 \<and> array self1 ! nat i = target self1"
    using greater.hyps(4,5) by (intro exI [of _ i]) simp
  with greater.IH greater.hyps(1,4) greater.prems mn show ?case by simp
qed

section \<open>The whole of \<open>execute\<close>\<close>

lemma execute_result [consumes 1]:
  assumes "execute self = Inr alg"
  obtains self0 s0 self1 l1 r1 where
    "array self0 = array self" "target self0 = target self"
    "comparisons self0 = comparisons self" "found self0 = found self"
    "found_index self0 = found_index self" "steps self0 = steps self @ [s0]"
    "left s0 = Some 0" "right s0 = Some (int (length (array self)) - 1)"
    "mid s0 = None" "comparison s0 = None" "status s0 = ''searching''"
    "search_loop self0 0 (int (length (array self)) - 1) = Inr (self1, l1, r1)"
    "found self1 \<Longrightarrow> alg = self1"
    "\<not> found self1 \<Longrightarrow> \<exists>nf. alg = self1\<lparr>steps := steps self1 @ [nf]\<rparr> \<and>
        left nf = Some l1 \<and> right nf = Some r1 \<and> mid nf = None \<and> comparison nf = None \<and>
        status nf = ''not_found''"
proof -
  let ?s0 = "\<lparr>left = Some 0, right = Some (int (length (array self)) - 1), mid = None,
              comparison = None,
              message = msg_start (target self) (int (length (array self))),
              status = ''searching''\<rparr>"
  let ?self0 = "self\<lparr>steps := steps self @ [?s0]\<rparr>"
  from assms obtain self1 l1 r1 where
    run: "search_loop ?self0 0 (int (length (array self)) - 1) = Inr (self1, l1, r1)"
    by (auto simp: execute_def Let_def split: sum.splits)
  from assms run have fin: "found self1 \<Longrightarrow> alg = self1"
    by (simp add: execute_def Let_def)
  from assms run have nf: "\<not> found self1 \<Longrightarrow> \<exists>nf. alg = self1\<lparr>steps := steps self1 @ [nf]\<rparr> \<and>
        left nf = Some l1 \<and> right nf = Some r1 \<and> mid nf = None \<and> comparison nf = None \<and>
        status nf = ''not_found''"
    by (auto simp: execute_def Let_def)
  show thesis
    by (rule that [of ?self0 ?s0 self1 l1 r1, OF _ _ _ _ _ _ _ _ _ _ _ run fin nf]) simp_all
qed

lemma execute_total: "\<exists>alg. execute (init a t) = Inr alg"
proof -
  let ?s0 = "\<lparr>left = Some 0, right = Some (int (length a) - 1), mid = None,
              comparison = None, message = msg_start t (int (length a)),
              status = ''searching''\<rparr>"
  let ?self0 = "(init a t)\<lparr>steps := steps (init a t) @ [?s0]\<rparr>"
  have "\<exists>res. search_loop ?self0 0 (int (length a) - 1) = Inr res"
    by (rule search_loop_total) (simp_all add: init_def)
  then obtain self1 l1 r1 where "search_loop ?self0 0 (int (length a) - 1) = Inr (self1, l1, r1)"
    by auto
  then show ?thesis
    by (simp add: execute_def Let_def init_def)
qed

lemma execute_length_bound:
  assumes "execute (init a t) = Inr alg"
  shows "length (steps alg) \<le> ceillog2 (length a + 1) + (if found alg then 1 else 2)"
  using assms
proof (cases rule: execute_result)
  case (1 self0 s0 self1 l1 r1)
  let ?k = "ceillog2 (length a + 1)"
  have "length a + 1 \<le> 2 ^ ?k"
    by (rule le_two_power_ceillog2)
  then have "length a < 2 ^ ?k"
    by simp
  then have "int (length a) < 2 ^ ?k"
    by (metis of_nat_less_iff of_nat_numeral of_nat_power)
  with 1 have "int (length (array (init a t))) - 1 - 0 + 1 < (2::int) ^ ?k"
    by (simp add: init_def)
  from search_loop_length_bound [OF "1"(12) this] "1"(6)
  have len: "length (steps self1) \<le> ?k + 1"
    by (simp add: init_def)
  show ?thesis
  proof (cases "found self1")
    case True
    with "1"(13) len show ?thesis by simp
  next
    case False
    with "1"(14) len show ?thesis by auto
  qed
qed

lemma init_simps [simp]:
  "array (init a t) = a" "target (init a t) = t" "steps (init a t) = []"
  "comparisons (init a t) = 0" "found (init a t) = False" "found_index (init a t) = - 1"
  by (simp_all add: init_def)

lemma execute_trace [consumes 1]:
  assumes "execute (init a t) = Inr alg"
  obtains s0 new tl where
    "steps alg = s0 # new @ tl"
    "status s0 = ''searching''" "mid s0 = None" "comparison s0 = None"
    "\<forall>s \<in> set new. in_bounds a s \<and> comparison s \<noteq> None"
    "\<forall>s \<in> set (butlast new). status s = ''searching'' \<and> comparison s \<noteq> Some ''equal''"
    "found alg \<Longrightarrow> tl = [] \<and> new \<noteq> [] \<and> status (last new) = ''found'' \<and>
       comparison (last new) = Some ''equal'' \<and> mid (last new) = Some (found_index alg) \<and>
       0 \<le> found_index alg \<and> found_index alg < int (length a) \<and>
       a ! nat (found_index alg) = t"
    "\<not> found alg \<Longrightarrow>
       (\<forall>s \<in> set new. status s = ''searching'' \<and> comparison s \<noteq> Some ''equal'') \<and>
       (\<exists>nf. tl = [nf] \<and> status nf = ''not_found'' \<and> mid nf = None \<and> comparison nf = None)"
    "comparisons alg = int (length new)"
  using assms
proof (cases rule: execute_result)
  case (1 self0 s0 self1 l1 r1)
  note run = "1"(12)
  let ?new = "new_steps self0 self1"
  have arr: "array self0 = a" and tgt: "target self0 = t" and nf0: "\<not> found self0"
    and st0: "steps self0 = [s0]" and c0: "comparisons self0 = 0"
    using 1 by simp_all
  from search_loop_steps [OF run] st0 have st1: "steps self1 = s0 # ?new"
    by simp
  have bounds: "\<forall>s \<in> set ?new. in_bounds a s \<and> comparison s \<noteq> None"
    using search_loop_in_bounds [OF run] arr by simp
  have bl: "\<forall>s \<in> set (butlast ?new). status s = ''searching'' \<and> comparison s \<noteq> Some ''equal''"
    using search_loop_butlast [OF run] by simp
  have "length (steps self0) \<le> length (steps self1)"
    using search_loop_prefix [OF run] by auto
  then have cnt: "comparisons self1 = int (length ?new)"
    using search_loop_comparisons [OF run] c0 by simp
  show thesis
  proof (cases "found self1")
    case True
    with "1"(13) have alg: "alg = self1" by simp
    from search_loop_found [OF run] nf0 True st0
    have lst: "length (steps self0) < length (steps self1)"
      "status (last (steps self1)) = ''found''"
      "comparison (last (steps self1)) = Some ''equal''"
      "mid (last (steps self1)) = Some (found_index self1)"
      by simp_all
    from lst(1) st0 st1 have ne: "?new \<noteq> []" by auto
    with st1 have last: "last (steps self1) = last ?new" by simp
    from search_loop_found_index [OF run] nf0 True arr tgt
    have idx: "0 \<le> found_index self1" "found_index self1 < int (length a)"
      "a ! nat (found_index self1) = t"
      by simp_all
    show thesis
    proof (rule that [of s0 ?new "[]"])
      show "steps alg = s0 # ?new @ []" using alg st1 by simp
      show "found alg \<Longrightarrow> [] = [] \<and> ?new \<noteq> [] \<and> status (last ?new) = ''found'' \<and>
         comparison (last ?new) = Some ''equal'' \<and> mid (last ?new) = Some (found_index alg) \<and>
         0 \<le> found_index alg \<and> found_index alg < int (length a) \<and>
         a ! nat (found_index alg) = t"
        using ne lst(2-4) idx unfolding last alg by simp
      show "\<not> found alg \<Longrightarrow>
         (\<forall>s \<in> set ?new. status s = ''searching'' \<and> comparison s \<noteq> Some ''equal'') \<and>
         (\<exists>nf. [] = [nf] \<and> status nf = ''not_found'' \<and> mid nf = None \<and> comparison nf = None)"
        using True alg by simp
      show "comparisons alg = int (length ?new)" using cnt alg by simp
    qed (fact "1"(11) "1"(9) "1"(10) bounds bl)+
  next
    case False
    with "1"(14) obtain nf where alg: "alg = self1\<lparr>steps := steps self1 @ [nf]\<rparr>"
      and nf: "status nf = ''not_found''" "mid nf = None" "comparison nf = None"
      by auto
    have srch: "\<forall>s \<in> set ?new. status s = ''searching'' \<and> comparison s \<noteq> Some ''equal''"
      using search_loop_not_found [OF run] False by simp
    show thesis
    proof (rule that [of s0 ?new "[nf]"])
      show "steps alg = s0 # ?new @ [nf]" using alg st1 by simp
      show "found alg \<Longrightarrow> [nf] = [] \<and> ?new \<noteq> [] \<and> status (last ?new) = ''found'' \<and>
         comparison (last ?new) = Some ''equal'' \<and> mid (last ?new) = Some (found_index alg) \<and>
         0 \<le> found_index alg \<and> found_index alg < int (length a) \<and>
         a ! nat (found_index alg) = t"
        using False alg by simp
      show "\<not> found alg \<Longrightarrow>
         (\<forall>s \<in> set ?new. status s = ''searching'' \<and> comparison s \<noteq> Some ''equal'') \<and>
         (\<exists>nf'. [nf] = [nf'] \<and> status nf' = ''not_found'' \<and> mid nf' = None \<and> comparison nf' = None)"
        using srch nf by simp
      show "comparisons alg = int (length ?new)" using cnt alg by simp
    qed (fact "1"(11) "1"(9) "1"(10) bounds bl)+
  qed
qed

lemma execute_found_iff:
  assumes "execute (init a t) = Inr alg" and "sorted a"
  shows "found alg \<longleftrightarrow> t \<in> set a"
  using assms(1)
proof (cases rule: execute_result)
  case (1 self0 s0 self1 l1 r1)
  note run = "1"(12)
  have arr: "array self0 = a" and tgt: "target self0 = t" and nf0: "\<not> found self0"
    using 1 by simp_all
  have alg: "found alg = found self1"
    using "1"(13,14) by (cases "found self1") auto
  show ?thesis
  proof
    assume "found alg"
    with alg have "found self1" by simp
    from search_loop_found_index [OF run] nf0 this arr tgt
    have "0 \<le> found_index self1" "found_index self1 < int (length a)"
      "a ! nat (found_index self1) = t"
      by simp_all
    then show "t \<in> set a"
      by (metis nat_less_iff nth_mem)
  next
    assume "t \<in> set a"
    then obtain i where i: "i < length a" "a ! i = t"
      by (auto simp: in_set_conv_nth)
    then have "\<exists>j. 0 \<le> j \<and> j \<le> int (length a) - 1 \<and> a ! nat j = t"
      by (intro exI [of _ "int i"]) simp
    with search_loop_present [OF run] arr tgt assms(2) have "found self1"
      by simp
    with alg show "found alg" by simp
  qed
qed

lemma execute_2_4_6:
  "execute (init [2, 4, 6] 5) = Inr
     \<lparr>array = [2, 4, 6], target = 5,
      steps =
        [\<lparr>left = Some 0, right = Some 2, mid = None, comparison = None,
          message = msg_start 5 3, status = ''searching''\<rparr>,
         \<lparr>left = Some 0, right = Some 2, mid = Some 1, comparison = Some ''less'',
          message = msg_less 1 1 4 5, status = ''searching''\<rparr>,
         \<lparr>left = Some 2, right = Some 2, mid = Some 2, comparison = Some ''greater'',
          message = msg_greater 2 2 6 5, status = ''searching''\<rparr>,
         \<lparr>left = Some 2, right = Some 1, mid = None, comparison = None,
          message = msg_not_found 5 2, status = ''not_found''\<rparr>],
      comparisons = 2, found = False, found_index = - 1\<rparr>"
  by (simp add: execute_def init_def search_loop.simps getitem_def Let_def)

lemma ceillog2_length_3: "ceillog2 (length [2, 4, 6 :: int] + 1) = 2"
proof -
  have "length [2, 4, 6 :: int] + 1 = 2 ^ 2"
    by simp
  then show ?thesis
    by (simp only: ceillog2_2_power)
qed

lemma execute_scenario_23:
  "execute (init [1, 5, 9, 12, 17, 23, 29, 34, 41, 50] 23) = Inr
     \<lparr>array = [1, 5, 9, 12, 17, 23, 29, 34, 41, 50], target = 23,
      steps =
        [\<lparr>left = Some 0, right = Some 9, mid = None, comparison = None,
          message = msg_start 23 10, status = ''searching''\<rparr>,
         \<lparr>left = Some 0, right = Some 9, mid = Some 4, comparison = Some ''less'',
          message = msg_less 1 4 17 23, status = ''searching''\<rparr>,
         \<lparr>left = Some 5, right = Some 9, mid = Some 7, comparison = Some ''greater'',
          message = msg_greater 2 7 34 23, status = ''searching''\<rparr>,
         \<lparr>left = Some 5, right = Some 6, mid = Some 5, comparison = Some ''equal'',
          message = msg_found 3 5 23 23, status = ''found''\<rparr>],
      comparisons = 3, found = True, found_index = 5\<rparr>"
  by (simp add: execute_def init_def search_loop.simps getitem_def Let_def)

lemma in_bounds_getitem:
  assumes "in_bounds a s" and "mid s = Some m"
  shows "getitem a m = Inr (a ! nat m)"
  using assms by (auto simp: in_bounds_def getitem_def split: option.splits)

section \<open>The display\<close>

lemma log_lines_in_range:
  "\<forall>i \<in> set js. i < length ss \<Longrightarrow> log_lines ss js = Inr (map (\<lambda>i. message (ss ! i)) js)"
  by (induction js) (simp_all add: getitem_in_range)

lemma display_bound:
  assumes "bound_trace self"
  shows "display_current_step self =
     Inr (Some (create_bar_chart (current_array self) (all_steps self ! nat (current_step self))),
          stats_text (current_step self) (left (all_steps self ! nat (current_step self)))
            (right (all_steps self ! nat (current_step self)))
            (int (length (current_array self))),
          join ''\<newline>'' (map (\<lambda>i. message (all_steps self ! i)) [0..<nat (current_step self + 1)]),
          step_info_text (current_step self + 1) (int (length (all_steps self))))"
proof -
  from assms have c: "0 \<le> current_step self" "current_step self < int (length (all_steps self))"
    and ne: "all_steps self \<noteq> []"
    by (simp_all add: bound_trace_def)
  have g: "getitem (all_steps self) (current_step self) = Inr (all_steps self ! nat (current_step self))"
    using c by (rule getitem_in_range)
  have "\<forall>i \<in> set [0..<nat (current_step self + 1)]. i < length (all_steps self)"
    using c by auto
  from log_lines_in_range [OF this] g ne show ?thesis
    by (simp add: display_current_step_def)
qed

lemma execute_recorded_comparisons:
  assumes ex: "execute (init a t) = Inr alg"
    and c: "c < length (steps alg)"
    and st: "status (steps alg ! c) \<noteq> ''not_found''"
  shows "recorded_comparisons (steps alg) (int c) = c"
  using ex
proof (cases rule: execute_trace)
  case (1 s0 new tl)
  have le: "c \<le> length new"
  proof (cases "found alg")
    case True
    with "1"(7) have "tl = []" by simp
    with c "1"(1) show ?thesis by simp
  next
    case False
    with "1"(8) obtain nf where tl: "tl = [nf]" and nf: "status nf = ''not_found''"
      by auto
    have "steps alg ! Suc (length new) = nf"
      unfolding "1"(1) tl by (simp add: nth_append)
    with st nf have "c \<noteq> Suc (length new)" by auto
    with c "1"(1) tl show ?thesis by simp
  qed
  then have tk: "take (nat (int c + 1)) (steps alg) = s0 # take c new"
    unfolding "1"(1) by (simp add: nat_add_distrib)
  have "\<forall>s \<in> set (take c new). comparison s \<noteq> None"
    using "1"(5) by (auto dest: in_set_takeD)
  then have "filter (\<lambda>s. comparison s \<noteq> None) (take c new) = take c new"
    by (simp add: filter_id_conv)
  with le "1"(4) show ?thesis
    unfolding recorded_comparisons_def tk by simp
qed

lemma str_int_digits:
  "str_int 1 = ''1''" "str_int 2 = ''2''" "str_int 3 = ''3''" "str_int 5 = ''5''"
  by code_simp+

lemma execute_closing_cursor:
  assumes "execute (init a t) = Inr alg" and "\<not> found alg"
  shows "status (last (steps alg)) = ''not_found'' \<and>
         int (length (steps alg)) - 1 = comparisons alg + 1 \<and>
         int (recorded_comparisons (steps alg) (int (length (steps alg)) - 1)) = comparisons alg"
  using assms(1)
proof (cases rule: execute_trace)
  case (1 s0 new tl)
  from "1"(8) [OF assms(2)] obtain nf where tl: "tl = [nf]" and nf: "status nf = ''not_found''"
    "comparison nf = None"
    by auto
  have st: "steps alg = (s0 # new) @ [nf]"
    using "1"(1) tl by simp
  have "\<forall>s \<in> set new. comparison s \<noteq> None"
    using "1"(5) by simp
  then have flt: "filter (\<lambda>s. comparison s \<noteq> None) new = new"
    by (simp add: filter_id_conv)
  have "recorded_comparisons (steps alg) (int (length (steps alg)) - 1) = length new"
    unfolding recorded_comparisons_def st using flt "1"(4) nf(2) by simp
  moreover have "status (last (steps alg)) = ''not_found''"
    unfolding st using nf(1) by simp
  moreover have "int (length (steps alg)) - 1 = comparisons alg + 1"
    unfolding st using "1"(9) by simp
  ultimately show ?thesis
    using "1"(9) by (simp add: add.commute)
qed

lemma display_comparisons_before_closing:
  assumes "execute (init a t) = Inr alg" and "all_steps self = steps alg"
    and "0 \<le> current_step self" and "current_step self < int (length (all_steps self))"
    and "status (all_steps self ! nat (current_step self)) \<noteq> ''not_found''"
  shows "(\<exists>img rest log_text info. display_current_step self =
            Inr (img, ''**Statistics:**\<newline>- Comparisons so far: '' @ str_int (current_step self)
                        @ ''\<newline>'' @ rest, log_text, info)) \<and>
         int (recorded_comparisons (all_steps self) (current_step self)) = current_step self"
proof -
  from assms(3,4) have bt: "bound_trace self"
    by (auto simp: bound_trace_def)
  have "\<exists>img rest log_text info. display_current_step self =
            Inr (img, ''**Statistics:**\<newline>- Comparisons so far: '' @ str_int (current_step self)
                        @ ''\<newline>'' @ rest, log_text, info)"
    unfolding display_bound [OF bt] stats_text_def by simp
  moreover have "recorded_comparisons (steps alg) (int (nat (current_step self))) = nat (current_step self)"
    using assms by (intro execute_recorded_comparisons [of a t]) simp_all
  ultimately show ?thesis
    using assms(2,3) by simp
qed

section \<open>The visualizer and the navigation\<close>

lemma colors_simps [simp]:
  "colors ''found'' = Some ''#32cd32''" "colors ''current'' = Some ''#ffd700''"
  "colors ''eliminated'' = Some ''#d3d3d3''" "colors ''default'' = Some ''#1f3a93''"
  by (simp_all add: colors_def)

lemma fst_next_step:
  "fst (next_step self) =
     (if current_step self < int (length (all_steps self)) - 1
      then self\<lparr>current_step := current_step self + 1\<rparr> else self\<lparr>is_playing := False\<rparr>)"
  by (simp add: next_step_def Let_def)

lemma snd_next_step: "snd (next_step self) = display_current_step (fst (next_step self))"
  by (simp add: next_step_def Let_def)

lemma fst_previous_step:
  "fst (previous_step self) =
     (if current_step self > 0 then self\<lparr>current_step := current_step self - 1\<rparr> else self)"
  by (simp add: previous_step_def Let_def)

lemma snd_previous_step:
  "snd (previous_step self) = display_current_step (fst (previous_step self))"
  by (simp add: previous_step_def Let_def)

lemma fst_reset_search: "fst (reset_search self) = self\<lparr>current_step := 0\<rparr>"
  by (simp add: reset_search_def Let_def)

lemma bound_trace_next_step: "bound_trace self \<Longrightarrow> bound_trace (fst (next_step self))"
  by (auto simp: fst_next_step bound_trace_def)

lemma bound_trace_previous_step: "bound_trace self \<Longrightarrow> bound_trace (fst (previous_step self))"
  by (auto simp: fst_previous_step bound_trace_def)

lemma bound_trace_2_4_6:
  assumes "execute (init [2, 4, 6] 5) = Inr alg" and "c \<in> {0, 1, 2, 3}"
  shows "bound_trace \<lparr>current_array = [2, 4, 6], current_target = Some 5,
           algorithm = Some alg, current_step = c, all_steps = steps alg, is_playing = p\<rparr>"
  using assms by (auto simp: execute_2_4_6 bound_trace_def)

section \<open>The claims\<close>

subsection \<open>C1: a target that is present is found\<close>

text \<open>
  C1: for every array \<open>a\<close> sorted in ascending order and every target \<open>t\<close> that
  occurs in \<open>a\<close>, the trace of \<open>execute\<close> ends in a step with status \<open>found\<close> and
  comparison outcome \<open>equal\<close>; its \<open>mid\<close> is set, to the recorded \<open>found_index\<close>,
  which is a position of \<open>a\<close> that holds \<open>t\<close>.
\<close>

theorem execute_finds_present:
  assumes "sorted a" and "t \<in> set a"
  shows "\<exists>alg. execute (init a t) = Inr alg \<and> steps alg \<noteq> [] \<and>
           status (last (steps alg)) = ''found'' \<and>
           comparison (last (steps alg)) = Some ''equal'' \<and>
           mid (last (steps alg)) = Some (found_index alg) \<and>
           0 \<le> found_index alg \<and> found_index alg < int (length a) \<and>
           a ! nat (found_index alg) = t"
proof -
  from execute_total obtain alg where ex: "execute (init a t) = Inr alg"
    by blast
  from execute_found_iff [OF ex assms(1)] assms(2) have fnd: "found alg"
    by simp
  from ex show ?thesis
  proof (cases rule: execute_trace)
    case (1 s0 new tl)
    from "1"(7) [OF fnd] have tl: "tl = []" and ne: "new \<noteq> []"
      and lst: "status (last new) = ''found''" "comparison (last new) = Some ''equal''"
        "mid (last new) = Some (found_index alg)"
      and idx: "0 \<le> found_index alg" "found_index alg < int (length a)"
        "a ! nat (found_index alg) = t"
      by simp_all
    from "1"(1) tl ne have "steps alg \<noteq> []" "last (steps alg) = last new"
      by simp_all
    with ex lst idx show ?thesis
      by simp
  qed
qed

theorem execute_finds_present_witness:
  "sorted [1, 5, 9, 12, 17, 23, 29, 34, 41, 50 :: int] \<and>
   (23 :: int) \<in> set [1, 5, 9, 12, 17, 23, 29, 34, 41, 50] \<and>
   (\<exists>alg. execute (init [1, 5, 9, 12, 17, 23, 29, 34, 41, 50] 23) = Inr alg \<and>
      status (last (steps alg)) = ''found'' \<and> mid (last (steps alg)) = Some 5 \<and>
      found_index alg = 5 \<and> [1, 5, 9, 12, 17, 23, 29, 34, 41, 50] ! nat (found_index alg) = (23::int))"
proof -
  have srt: "sorted [1, 5, 9, 12, 17, 23, 29, 34, 41, 50 :: int]"
    by simp
  have mem: "(23 :: int) \<in> set [1, 5, 9, 12, 17, 23, 29, 34, 41, 50]"
    by simp
  from execute_finds_present [OF srt mem] srt mem show ?thesis
    by (simp add: execute_scenario_23)
qed

subsection \<open>C2: the length of the trace\<close>

text \<open>
  C2 as stated, for a sorted array and any target the trace has at most
  \<open>ceil(log2(len(A)+1)) + 1\<close> steps, fails on the array \<open>[2, 4, 6]\<close> with target
  \<open>5\<close>: the trace has the initial step, two comparisons and the closing
  \<open>not_found\<close> step, four steps, and the bound is three.
\<close>

theorem step_count_counterexample:
  "sorted [2, 4, 6 :: int] \<and> \<not> isl (execute (init [2, 4, 6] 5)) \<and>
   length (steps (projr (execute (init [2, 4, 6] 5)))) = 4 \<and>
   \<not> length (steps (projr (execute (init [2, 4, 6] 5))))
       \<le> ceillog2 (length [2, 4, 6 :: int] + 1) + 1"
  unfolding ceillog2_length_3 by (simp add: execute_2_4_6)

text \<open>
  C2, amended: for every sorted array \<open>a\<close> and every target \<open>t\<close>, \<open>execute\<close> returns,
  and its trace has at most \<open>ceil(log2(len(a)+1)) + 1\<close> steps when the target was
  found and at most \<open>ceil(log2(len(a)+1)) + 2\<close> steps when it was not (the closing
  \<open>not_found\<close> step is one more step after the last comparison).
\<close>

theorem execute_step_count:
  assumes "sorted a"
  shows "\<exists>alg. execute (init a t) = Inr alg \<and>
           length (steps alg) \<le> ceillog2 (length a + 1) + (if found alg then 1 else 2)"
  using execute_total [of a t] execute_length_bound [of a t] by blast

theorem execute_step_count_witness:
  "sorted [2, 4, 6 :: int] \<and>
   (\<exists>alg. execute (init [2, 4, 6] 5) = Inr alg \<and> length (steps alg) \<le> 4)"
proof -
  have "sorted [2, 4, 6 :: int]"
    by simp
  from execute_step_count [OF this, of 5] show ?thesis
    unfolding ceillog2_length_3 by (simp add: execute_2_4_6)
qed

subsection \<open>C3: the statuses along the trace\<close>

text \<open>
  C3: for every array and target, sorted or not, the trace of \<open>execute\<close> has a first
  step with status \<open>searching\<close> and \<open>mid\<close> unset and a different, last step with
  status \<open>found\<close> or \<open>not_found\<close>; every step before the last has status
  \<open>searching\<close>; and exactly one step of the trace has a terminal status.
\<close>

theorem execute_status_shape:
  "\<exists>alg. execute (init a t) = Inr alg \<and> 2 \<le> length (steps alg) \<and>
     status (hd (steps alg)) = ''searching'' \<and> mid (hd (steps alg)) = None \<and>
     (status (last (steps alg)) = ''found'' \<or> status (last (steps alg)) = ''not_found'') \<and>
     (\<forall>s \<in> set (butlast (steps alg)). status s = ''searching'') \<and>
     length (filter (\<lambda>s. status s = ''found'' \<or> status s = ''not_found'') (steps alg)) = 1"
proof -
  from execute_total obtain alg where ex: "execute (init a t) = Inr alg"
    by blast
  let ?terminal = "\<lambda>s. status s = ''found'' \<or> status s = ''not_found''"
  from ex show ?thesis
  proof (cases rule: execute_trace)
    case (1 s0 new tl)
    have s0: "\<not> ?terminal s0" using "1"(2) by simp
    show ?thesis
    proof (cases "found alg")
      case True
      from "1"(7) [OF True] have tl: "tl = []" and ne: "new \<noteq> []"
        and lst: "status (last new) = ''found''"
        by simp_all
      from ne have new: "new = butlast new @ [last new]" by simp
      have bl: "\<forall>s \<in> set (butlast new). status s = ''searching''"
        using "1"(6) by simp
      then have nob: "filter ?terminal (butlast new) = []"
        by (simp add: filter_empty_conv)
      have st: "steps alg = (s0 # butlast new) @ [last new]"
        using "1"(1) tl new by simp
      have "length (filter ?terminal (steps alg)) = 1"
        unfolding st using s0 nob lst by simp
      moreover have "\<forall>s \<in> set (butlast (steps alg)). status s = ''searching''"
        unfolding st using bl "1"(2) by simp
      moreover have "status (last (steps alg)) = ''found''"
        unfolding st using lst by simp
      moreover have "2 \<le> length (steps alg)" "hd (steps alg) = s0"
        unfolding st by simp_all
      ultimately show ?thesis
        using ex "1"(2,3) by simp
    next
      case False
      from "1"(8) [OF False] obtain nf where tl: "tl = [nf]" and nf: "status nf = ''not_found''"
        and srch: "\<forall>s \<in> set new. status s = ''searching''"
        by auto
      from srch have nob: "filter ?terminal new = []"
        by (simp add: filter_empty_conv)
      have st: "steps alg = (s0 # new) @ [nf]"
        using "1"(1) tl by simp
      have "length (filter ?terminal (steps alg)) = 1"
        unfolding st using s0 nob nf by simp
      moreover have "\<forall>s \<in> set (butlast (steps alg)). status s = ''searching''"
        unfolding st using srch "1"(2) by simp
      moreover have "status (last (steps alg)) = ''not_found''"
        unfolding st using nf by simp
      moreover have "2 \<le> length (steps alg)" "hd (steps alg) = s0"
        unfolding st by simp_all
      ultimately show ?thesis
        using ex "1"(2,3) by simp
    qed
  qed
qed

theorem execute_status_shape_witness:
  "\<exists>alg. execute (init [2, 4, 6] 5) = Inr alg \<and> length (steps alg) = 4 \<and>
     status (hd (steps alg)) = ''searching'' \<and> mid (hd (steps alg)) = None \<and>
     status (last (steps alg)) = ''not_found'' \<and>
     map status (butlast (steps alg)) = [''searching'', ''searching'', ''searching''] \<and>
     length (filter (\<lambda>s. status s = ''found'' \<or> status s = ''not_found'') (steps alg)) = 1"
  using execute_status_shape [of "[2, 4, 6]" 5] by (simp add: execute_2_4_6)

subsection \<open>C4: a target that is absent is not found\<close>

text \<open>
  C4: for every sorted array \<open>a\<close> and every target \<open>t\<close> that does not occur in \<open>a\<close>,
  the last step of the trace of \<open>execute\<close> has status \<open>not_found\<close>, and no step of
  the trace has the comparison outcome \<open>equal\<close>.
\<close>

theorem execute_absent:
  assumes "sorted a" and "t \<notin> set a"
  shows "\<exists>alg. execute (init a t) = Inr alg \<and> steps alg \<noteq> [] \<and>
           status (last (steps alg)) = ''not_found'' \<and>
           (\<forall>s \<in> set (steps alg). comparison s \<noteq> Some ''equal'')"
proof -
  from execute_total obtain alg where ex: "execute (init a t) = Inr alg"
    by blast
  from execute_found_iff [OF ex assms(1)] assms(2) have nfnd: "\<not> found alg"
    by simp
  from ex show ?thesis
  proof (cases rule: execute_trace)
    case (1 s0 new tl)
    from "1"(8) [OF nfnd] obtain nf where tl: "tl = [nf]" and nf: "status nf = ''not_found''"
      "comparison nf = None"
      and srch: "\<forall>s \<in> set new. comparison s \<noteq> Some ''equal''"
      by auto
    have st: "steps alg = (s0 # new) @ [nf]"
      using "1"(1) tl by simp
    have "\<forall>s \<in> set (steps alg). comparison s \<noteq> Some ''equal''"
      unfolding st using srch nf(2) "1"(4) by simp
    moreover have "status (last (steps alg)) = ''not_found''" "steps alg \<noteq> []"
      unfolding st using nf(1) by simp_all
    ultimately show ?thesis
      using ex by simp
  qed
qed

theorem execute_absent_witness:
  "sorted [2, 4, 6 :: int] \<and> (5 :: int) \<notin> set [2, 4, 6] \<and>
   (\<exists>alg. execute (init [2, 4, 6] 5) = Inr alg \<and> status (last (steps alg)) = ''not_found'' \<and>
      map comparison (steps alg) = [None, Some ''less'', Some ''greater'', None])"
proof -
  have srt: "sorted [2, 4, 6 :: int]"
    by simp
  have mem: "(5 :: int) \<notin> set [2, 4, 6]"
    by simp
  from execute_absent [OF srt mem] srt mem show ?thesis
    by (simp add: execute_2_4_6)
qed

subsection \<open>C5: the comparisons shown by the statistics\<close>

text \<open>
  C5: at every cursor \<open>c\<close> of a bound trace the statistics show \<open>c\<close> as the comparisons
  so far, and \<open>c\<close> is the number of comparisons recorded in the steps \<open>0 .. c\<close>; that is,
  the number shown is the number of comparisons made up to the cursor.

  \<open>display_current_step\<close> prints the cursor, which is that number at every step but
  the closing \<open>not_found\<close> step (\<open>display_comparisons_before_closing\<close>); there the cursor
  is one more than the comparisons that \<open>execute\<close> made and counted
  (\<open>execute_closing_cursor\<close>).  For the array \<open>[2, 4, 6]\<close> and the target \<open>5\<close>, at the
  last cursor \<open>3\<close>: \<open>execute\<close> has counted two comparisons, the steps \<open>0 .. 3\<close> record
  two, and the closing message of the log reads \<open>after 2 comparisons\<close>, while the
  statistics read \<open>Comparisons so far: 3\<close>.
\<close>

theorem stats_comparisons_closing_step:
  "\<not> isl (execute (init [2, 4, 6] 5)) \<and>
   length (steps (projr (execute (init [2, 4, 6] 5)))) = 4 \<and>
   comparisons (projr (execute (init [2, 4, 6] 5))) = 2 \<and>
   recorded_comparisons (steps (projr (execute (init [2, 4, 6] 5)))) 3 = 2 \<and>
   message (steps (projr (execute (init [2, 4, 6] 5))) ! 3) =
     ''Search complete: 5 not found in array after 2 comparisons'' \<and>
   \<not> isl (display_current_step
     \<lparr>current_array = [2, 4, 6], current_target = Some 5,
      algorithm = Some (projr (execute (init [2, 4, 6] 5))), current_step = 3,
      all_steps = steps (projr (execute (init [2, 4, 6] 5))), is_playing = False\<rparr>) \<and>
   fst (snd (projr (display_current_step
     \<lparr>current_array = [2, 4, 6], current_target = Some 5,
      algorithm = Some (projr (execute (init [2, 4, 6] 5))), current_step = 3,
      all_steps = steps (projr (execute (init [2, 4, 6] 5))), is_playing = False\<rparr>))) =
     ''**Statistics:**\<newline>- Comparisons so far: 3\<newline>- Current search range: [2, 1]\<newline>- Time Complexity: O(log n)\<newline>- Array size (n): 3\<newline>''"
  by (simp add: execute_2_4_6 display_bound bound_trace_def recorded_comparisons_def
      msg_not_found_def stats_text_def str_opt_def str_int_digits)

subsection \<open>C6: what the navigation handlers change\<close>

text \<open>
  C6 as stated, each of \<open>next_step\<close>, \<open>previous_step\<close> and \<open>reset_search\<close> changes no
  field other than \<open>current_step\<close>, fails for \<open>next_step\<close> at the last step of a trace
  while \<open>is_playing\<close> is set (as \<open>toggle_auto_play\<close> sets it): the call clears
  \<open>is_playing\<close>.
\<close>

theorem navigation_frame_counterexample:
  "\<not> isl (execute (init [2, 4, 6] 5)) \<and>
   bound_trace (fst (toggle_auto_play
     \<lparr>current_array = [2, 4, 6], current_target = Some 5,
      algorithm = Some (projr (execute (init [2, 4, 6] 5))), current_step = 3,
      all_steps = steps (projr (execute (init [2, 4, 6] 5))), is_playing = False\<rparr>)) \<and>
   is_playing (fst (toggle_auto_play
     \<lparr>current_array = [2, 4, 6], current_target = Some 5,
      algorithm = Some (projr (execute (init [2, 4, 6] 5))), current_step = 3,
      all_steps = steps (projr (execute (init [2, 4, 6] 5))), is_playing = False\<rparr>)) \<and>
   \<not> is_playing (fst (next_step (fst (toggle_auto_play
     \<lparr>current_array = [2, 4, 6], current_target = Some 5,
      algorithm = Some (projr (execute (init [2, 4, 6] 5))), current_step = 3,
      all_steps = steps (projr (execute (init [2, 4, 6] 5))), is_playing = False\<rparr>))))"
  by (simp add: execute_2_4_6 toggle_auto_play_def fst_next_step bound_trace_def Let_def)

text \<open>
  C6, amended: for every session with a bound trace, \<open>previous_step\<close> and
  \<open>reset_search\<close> change no field other than \<open>current_step\<close>; \<open>next_step\<close> changes no
  field other than \<open>current_step\<close> and \<open>is_playing\<close>, it leaves \<open>is_playing\<close> as it is
  when the cursor is before the last step, and at the last step it changes nothing
  but \<open>is_playing\<close>, which it sets to \<open>False\<close>.
\<close>

theorem navigation_frame:
  assumes "bound_trace self"
  shows "(fst (previous_step self))\<lparr>current_step := current_step self\<rparr> = self \<and>
         (fst (reset_search self))\<lparr>current_step := current_step self\<rparr> = self \<and>
         (fst (next_step self))\<lparr>current_step := current_step self,
                                 is_playing := is_playing self\<rparr> = self \<and>
         (current_step self < int (length (all_steps self)) - 1 \<longrightarrow>
            is_playing (fst (next_step self)) = is_playing self) \<and>
         (\<not> current_step self < int (length (all_steps self)) - 1 \<longrightarrow>
            fst (next_step self) = self\<lparr>is_playing := False\<rparr>)"
  by (simp add: fst_previous_step fst_reset_search fst_next_step)

theorem navigation_frame_witness:
  "\<exists>alg. execute (init [2, 4, 6] 5) = Inr alg \<and>
     bound_trace \<lparr>current_array = [2, 4, 6], current_target = Some 5, algorithm = Some alg,
        current_step = 1, all_steps = steps alg, is_playing = True\<rparr> \<and>
     is_playing (fst (next_step
       \<lparr>current_array = [2, 4, 6], current_target = Some 5, algorithm = Some alg,
        current_step = 1, all_steps = steps alg, is_playing = True\<rparr>)) \<and>
     bound_trace \<lparr>current_array = [2, 4, 6], current_target = Some 5, algorithm = Some alg,
        current_step = 3, all_steps = steps alg, is_playing = True\<rparr> \<and>
     fst (next_step
       \<lparr>current_array = [2, 4, 6], current_target = Some 5, algorithm = Some alg,
        current_step = 3, all_steps = steps alg, is_playing = True\<rparr>) =
       \<lparr>current_array = [2, 4, 6], current_target = Some 5, algorithm = Some alg,
        current_step = 3, all_steps = steps alg, is_playing = False\<rparr>"
proof -
  from execute_total obtain alg where ex: "execute (init [2, 4, 6] 5) = Inr alg"
    by blast
  let ?self = "\<lambda>c. \<lparr>current_array = [2, 4, 6], current_target = Some 5, algorithm = Some alg,
        current_step = c, all_steps = steps alg, is_playing = True\<rparr>"
  have len: "length (steps alg) = 4"
    using ex by (auto simp: execute_2_4_6)
  have b1: "bound_trace (?self 1)" and b3: "bound_trace (?self 3)"
    using ex by (simp_all add: bound_trace_2_4_6)
  from navigation_frame [OF b1] navigation_frame [OF b3] b1 b3 ex len show ?thesis
    by (intro exI [of _ alg]) simp
qed

subsection \<open>C7: forward and back, and the two ends\<close>

text \<open>
  C7: for every session with a bound trace, \<open>next_step\<close> followed by
  \<open>previous_step\<close> returns the cursor to its value whenever the cursor was before
  the last step; \<open>previous_step\<close> at cursor \<open>0\<close> leaves the cursor at \<open>0\<close> and
  \<open>next_step\<close> at the last index leaves the cursor as it is, and both return their
  display and raise nothing.
\<close>

theorem navigation_round_trip:
  assumes "bound_trace self"
  shows "(current_step self < int (length (all_steps self)) - 1 \<longrightarrow>
            current_step (fst (previous_step (fst (next_step self)))) = current_step self) \<and>
         (current_step self = 0 \<longrightarrow>
            current_step (fst (previous_step self)) = 0 \<and>
            (\<exists>d. snd (previous_step self) = Inr d)) \<and>
         (current_step self = int (length (all_steps self)) - 1 \<longrightarrow>
            current_step (fst (next_step self)) = current_step self \<and>
            (\<exists>d. snd (next_step self) = Inr d))"
proof -
  from assms have c: "0 \<le> current_step self"
    by (simp add: bound_trace_def)
  have "\<exists>d. snd (previous_step self) = Inr d"
    unfolding snd_previous_step
    using display_bound [OF bound_trace_previous_step [OF assms]] by simp
  moreover have "\<exists>d. snd (next_step self) = Inr d"
    unfolding snd_next_step
    using display_bound [OF bound_trace_next_step [OF assms]] by simp
  ultimately show ?thesis
    using c by (simp add: fst_previous_step fst_next_step)
qed

theorem navigation_round_trip_witness:
  "\<exists>alg. execute (init [2, 4, 6] 5) = Inr alg \<and>
     bound_trace \<lparr>current_array = [2, 4, 6], current_target = Some 5, algorithm = Some alg,
        current_step = 0, all_steps = steps alg, is_playing = False\<rparr> \<and>
     current_step (fst (previous_step
       \<lparr>current_array = [2, 4, 6], current_target = Some 5, algorithm = Some alg,
        current_step = 0, all_steps = steps alg, is_playing = False\<rparr>)) = 0 \<and>
     bound_trace \<lparr>current_array = [2, 4, 6], current_target = Some 5, algorithm = Some alg,
        current_step = 1, all_steps = steps alg, is_playing = False\<rparr> \<and>
     current_step (fst (next_step
       \<lparr>current_array = [2, 4, 6], current_target = Some 5, algorithm = Some alg,
        current_step = 1, all_steps = steps alg, is_playing = False\<rparr>)) = 2 \<and>
     current_step (fst (previous_step (fst (next_step
       \<lparr>current_array = [2, 4, 6], current_target = Some 5, algorithm = Some alg,
        current_step = 1, all_steps = steps alg, is_playing = False\<rparr>)))) = 1 \<and>
     bound_trace \<lparr>current_array = [2, 4, 6], current_target = Some 5, algorithm = Some alg,
        current_step = 3, all_steps = steps alg, is_playing = False\<rparr> \<and>
     current_step (fst (next_step
       \<lparr>current_array = [2, 4, 6], current_target = Some 5, algorithm = Some alg,
        current_step = 3, all_steps = steps alg, is_playing = False\<rparr>)) = 3"
proof -
  from execute_total obtain alg where ex: "execute (init [2, 4, 6] 5) = Inr alg"
    by blast
  let ?self = "\<lambda>c. \<lparr>current_array = [2, 4, 6], current_target = Some 5, algorithm = Some alg,
        current_step = c, all_steps = steps alg, is_playing = False\<rparr>"
  have len: "length (steps alg) = 4"
    using ex by (auto simp: execute_2_4_6)
  have b0: "bound_trace (?self 0)" and b1: "bound_trace (?self 1)"
    and b3: "bound_trace (?self 3)"
    using ex by (simp_all add: bound_trace_2_4_6)
  have fwd: "current_step (fst (next_step (?self 1))) = 2"
    using len by (simp add: fst_next_step)
  from navigation_round_trip [OF b0] navigation_round_trip [OF b1]
    navigation_round_trip [OF b3] b0 b1 b3 ex len fwd
  show ?thesis
    by (intro exI [of _ alg]) simp
qed

subsection \<open>C8: the colour of a bar\<close>

text \<open>
  C8: for every array, every step and every position \<open>i\<close> of the array, the colour
  that \<open>create_bar_chart\<close> gives bar \<open>i\<close> is the \<open>found\<close> colour iff the status is
  \<open>found\<close> and \<open>i\<close> is \<open>mid\<close>; otherwise the \<open>current\<close> colour iff \<open>mid\<close> is set and
  \<open>i\<close> is \<open>mid\<close>; otherwise the \<open>eliminated\<close> colour iff \<open>left\<close> and \<open>right\<close> are set
  and \<open>i < left\<close> or \<open>i > right\<close>; otherwise the \<open>default\<close> (in range) colour.
\<close>

theorem bar_color_classes:
  assumes "i < length arr"
  shows "length (create_bar_chart arr s) = length arr \<and>
    (create_bar_chart arr s ! i = colors ''found'' \<longleftrightarrow>
       status s = ''found'' \<and> mid s = Some (int i)) \<and>
    (create_bar_chart arr s ! i = colors ''current'' \<longleftrightarrow>
       \<not> (status s = ''found'' \<and> mid s = Some (int i)) \<and> mid s = Some (int i)) \<and>
    (create_bar_chart arr s ! i = colors ''eliminated'' \<longleftrightarrow>
       mid s \<noteq> Some (int i) \<and>
       (\<exists>l r. left s = Some l \<and> right s = Some r \<and> (int i < l \<or> int i > r))) \<and>
    (create_bar_chart arr s ! i = colors ''default'' \<longleftrightarrow>
       mid s \<noteq> Some (int i) \<and>
       \<not> (\<exists>l r. left s = Some l \<and> right s = Some r \<and> (int i < l \<or> int i > r)))"
proof -
  have nth: "create_bar_chart arr s ! i = bar_color s (int i)"
    using assms by (simp add: create_bar_chart_def)
  show ?thesis
    unfolding nth by (auto simp: bar_color_def create_bar_chart_def split: option.splits)
qed


theorem bar_color_classes_witness:
  "(2 :: nat) < length [2, 4, 6 :: int] \<and>
   create_bar_chart [2, 4, 6]
     \<lparr>left = Some 2, right = Some 2, mid = Some 2, comparison = Some ''greater'',
      message = msg_greater 2 2 6 5, status = ''searching''\<rparr> =
     [colors ''eliminated'', colors ''eliminated'', colors ''current'']"
  using bar_color_classes [of 2 "[2, 4, 6]"
      "\<lparr>left = Some 2, right = Some 2, mid = Some 2, comparison = Some ''greater'',
        message = msg_greater 2 2 6 5, status = ''searching''\<rparr>"]
  by (simp add: create_bar_chart_def bar_color_def upt_rec)

subsection \<open>C9: termination, and the empty array\<close>

text \<open>
  C9: for every array and every target, sorted or not, \<open>execute\<close> on a new object
  returns a trace (the loop is a total function, and no index is out of range: the
  result is never an exception); the trace is a function of the array and the target,
  \<open>execute\<close> being a function of the object.  For the empty array the trace is the
  initial step followed by the \<open>not_found\<close> step, and no comparison is counted.
\<close>

theorem execute_terminates:
  "(\<exists>alg. execute (init a t) = Inr alg) \<and>
   execute (init [] t) = Inr
     \<lparr>array = [], target = t,
      steps =
        [\<lparr>left = Some 0, right = Some (- 1), mid = None, comparison = None,
          message = msg_start t 0, status = ''searching''\<rparr>,
         \<lparr>left = Some 0, right = Some (- 1), mid = None, comparison = None,
          message = msg_not_found t 0, status = ''not_found''\<rparr>],
      comparisons = 0, found = False, found_index = - 1\<rparr>"
  using execute_total [of a t]
  by (simp add: execute_def init_def search_loop.simps Let_def)

subsection \<open>C10: every index is in bounds\<close>

text \<open>
  C10: for every array and target, sorted or not, \<open>execute\<close> returns without an
  exception.  Each iteration of the loop records one step with \<open>mid\<close> set (there are
  as many such steps as comparisons counted), and in every such step
  \<open>0 \<le> left \<le> mid \<le> right \<le> len(array) - 1\<close> with \<open>mid = (left + right) // 2\<close>, so
  that \<open>array[mid]\<close> reads an element of the array.
\<close>

theorem execute_index_in_bounds:
  "\<exists>alg. execute (init a t) = Inr alg \<and>
     (\<forall>s \<in> set (steps alg). \<forall>m. mid s = Some m \<longrightarrow>
        in_bounds a s \<and> getitem a m = Inr (a ! nat m)) \<and>
     int (length (filter (\<lambda>s. mid s \<noteq> None) (steps alg))) = comparisons alg"
proof -
  from execute_total obtain alg where ex: "execute (init a t) = Inr alg"
    by blast
  from ex show ?thesis
  proof (cases rule: execute_trace)
    case (1 s0 new tl)
    have tl: "\<forall>s \<in> set tl. mid s = None"
      using "1"(7,8) by (cases "found alg") auto
    have new: "\<forall>s \<in> set new. in_bounds a s \<and> mid s \<noteq> None"
      using "1"(5) by (auto simp: in_bounds_def split: option.splits)
    have "\<forall>s \<in> set (steps alg). \<forall>m. mid s = Some m \<longrightarrow>
        in_bounds a s \<and> getitem a m = Inr (a ! nat m)"
      unfolding "1"(1) using tl new "1"(3) by (auto simp: in_bounds_getitem)
    moreover have "filter (\<lambda>s. mid s \<noteq> None) (steps alg) = new"
      unfolding "1"(1) using tl new "1"(3) by (simp add: filter_empty_conv filter_id_conv)
    ultimately show ?thesis
      using ex "1"(9) by simp
  qed
qed

theorem execute_index_in_bounds_witness:
  "\<exists>alg. execute (init [3, 1, 2] (- 7)) = Inr alg \<and>
     map (\<lambda>s. (left s, mid s, right s)) (steps alg) =
       [(Some 0, None, Some 2), (Some 0, Some 1, Some 2), (Some 0, Some 0, Some 0),
        (Some 0, None, Some (- 1))] \<and>
     list_all (\<lambda>s. mid s = None \<or> in_bounds [3, 1, 2] s) (steps alg) \<and>
     comparisons alg = 2"
  using execute_index_in_bounds [of "[3, 1, 2]" "- 7"]
  by (simp add: execute_def init_def search_loop.simps getitem_def Let_def in_bounds_def)

end
